theory Spec2Isabelle
  imports Complex_Main "HOL-Library.AList"
begin

section \<open>Two-stream benchmark: data model\<close>

text \<open>
  The Python exceptions the code can raise on the paths modelled here: a missing
  dictionary key, \<open>rng.choice\<close> on an empty sequence, \<open>rng.randint\<close> on an
  empty range, and the division that ends \<open>run\<close>.
\<close>

datatype error = KeyError | IndexError | ValueError | ZeroDivisionError

type_synonym coord = "int \<times> int"

text \<open>A dataset row is the tuple \<open>(oid, c, f)\<close> that \<open>gen_ds\<close> appends.\<close>

type_synonym row = "int \<times> coord \<times> string"

subsection \<open>Dictionaries\<close>

text \<open>
  A Python \<open>dict\<close> is kept as an association list with pairwise distinct keys in
  insertion order: storing under a key already present replaces the value in place,
  storing under a new key appends. \<open>len\<close> is the length of that list.
\<close>

type_synonym ('k, 'v) dict = "('k \<times> 'v) list"

definition dict_comp :: "('k \<times> 'v) list \<Rightarrow> ('k, 'v) dict" where
  "dict_comp kvs = foldl (\<lambda>d (k, v). AList.update k v d) [] kvs"

definition len_dict :: "('k, 'v) dict \<Rightarrow> nat" where
  "len_dict d = length d"

text \<open>
  Every store method below is a chain of subscript reads \<open>d[k]\<close>. A computation
  returns its outcome together with the number of dictionary reads it performed, so that
  the cost of a method is part of its model; a failed read is counted and ends the chain.
\<close>

type_synonym 'a counted = "(error + 'a) \<times> nat"

definition getitem :: "('k, 'v) dict \<Rightarrow> 'k \<Rightarrow> 'v counted" where
  "getitem d k = (case map_of d k of None \<Rightarrow> (Inl KeyError, 1) | Some v \<Rightarrow> (Inr v, 1))"

definition return_c :: "'a \<Rightarrow> 'a counted" where
  "return_c v = (Inr v, 0)"

definition then_c :: "'a counted \<Rightarrow> ('a \<Rightarrow> 'b counted) \<Rightarrow> 'b counted" where
  "then_c m k =
     (case m of
        (Inl e, n) \<Rightarrow> (Inl e, n)
      | (Inr v, n) \<Rightarrow> (case k v of (r, n') \<Rightarrow> (r, n + n')))"

definition outcome :: "'a counted \<Rightarrow> error + 'a" where
  "outcome m = fst m"

definition accesses :: "'a counted \<Rightarrow> nat" where
  "accesses m = snd m"

subsection \<open>class Unified\<close>

record unified =
  id_map :: "(int, coord \<times> string) dict"
  coord_map :: "(coord, int \<times> string) dict"

definition Unified_init :: "row list \<Rightarrow> unified" where
  "Unified_init ds =
     \<lparr> id_map = dict_comp (map (\<lambda>(oid, c, f). (oid, (c, f))) ds),
       coord_map = dict_comp (map (\<lambda>(oid, c, f). (c, (oid, f))) ds) \<rparr>"

definition Unified_oid_to_coord :: "unified \<Rightarrow> int \<Rightarrow> coord counted" where
  "Unified_oid_to_coord self oid = then_c (getitem (id_map self) oid) (\<lambda>e. return_c (fst e))"

definition Unified_coord_to_oid :: "unified \<Rightarrow> coord \<Rightarrow> int counted" where
  "Unified_coord_to_oid self c = then_c (getitem (coord_map self) c) (\<lambda>e. return_c (fst e))"

definition Unified_full_lookup :: "unified \<Rightarrow> int \<Rightarrow> (coord \<times> string) counted" where
  "Unified_full_lookup self oid = getitem (id_map self) oid"

subsection \<open>class Split\<close>

text \<open>
  The field \<open>self.where\<close> is named \<open>where_tab\<close> here, \<open>where\<close> being a keyword.
\<close>

record split =
  where_tab :: "(int, coord) dict"
  what :: "(int, string) dict"
  idx :: "(coord, int) dict"

definition Split_init :: "row list \<Rightarrow> split" where
  "Split_init ds =
     \<lparr> where_tab = dict_comp (map (\<lambda>(oid, c, f). (oid, c)) ds),
       what = dict_comp (map (\<lambda>(oid, c, f). (oid, f)) ds),
       idx = dict_comp (map (\<lambda>(oid, c, f). (c, oid)) ds) \<rparr>"

definition Split_oid_to_coord :: "split \<Rightarrow> int \<Rightarrow> coord counted" where
  "Split_oid_to_coord self oid = getitem (where_tab self) oid"

definition Split_coord_to_oid :: "split \<Rightarrow> coord \<Rightarrow> int counted" where
  "Split_coord_to_oid self c = getitem (idx self) c"

definition Split_full_lookup :: "split \<Rightarrow> int \<Rightarrow> (coord \<times> string) counted" where
  "Split_full_lookup self oid =
     then_c (getitem (where_tab self) oid) (\<lambda>c.
     then_c (getitem (what self) oid) (\<lambda>f.
     then_c (getitem (idx self) c) (\<lambda>oid_2.
     then_c (getitem (what self) oid_2) (\<lambda>_.
     return_c (c, f)))))"

text \<open>\<open>mem: Union[Unified, Split]\<close>, with the method call dispatched on the class.\<close>

datatype mem = UnifiedMem unified | SplitMem split

fun oid_to_coord :: "mem \<Rightarrow> int \<Rightarrow> coord counted" where
  "oid_to_coord (UnifiedMem u) oid = Unified_oid_to_coord u oid"
| "oid_to_coord (SplitMem s) oid = Split_oid_to_coord s oid"

fun coord_to_oid :: "mem \<Rightarrow> coord \<Rightarrow> int counted" where
  "coord_to_oid (UnifiedMem u) c = Unified_coord_to_oid u c"
| "coord_to_oid (SplitMem s) c = Split_coord_to_oid s c"

fun full_lookup :: "mem \<Rightarrow> int \<Rightarrow> (coord \<times> string) counted" where
  "full_lookup (UnifiedMem u) oid = Unified_full_lookup u oid"
| "full_lookup (SplitMem s) oid = Split_full_lookup s oid"

section \<open>Dataset generation\<close>

subsection \<open>The random source\<close>

text \<open>
  \<open>random.Random\<close> is the standard library's generator, a deterministic state machine.
  Its operations are parameters of the model: each takes the generator state and returns
  the value drawn with the next state. \<open>seed_op\<close> is \<open>random.Random(seed)\<close>,
  \<open>randint_op\<close> the draw behind \<open>rng.randint(a, b)\<close>, \<open>random_op\<close> is
  \<open>rng.random()\<close> and \<open>randbelow_op\<close> the index draw behind \<open>rng.choice(seq)\<close>.
\<close>

record ('g, 'f) random_ops =
  seed_op :: "int \<Rightarrow> 'g"
  randint_op :: "'g \<Rightarrow> int \<Rightarrow> int \<Rightarrow> int \<times> 'g"
  random_op :: "'g \<Rightarrow> 'f \<times> 'g"
  randbelow_op :: "'g \<Rightarrow> nat \<Rightarrow> nat \<times> 'g"

text \<open>\<open>rng.randint(a, b)\<close> raises \<open>ValueError\<close> on an empty range.\<close>

definition randint :: "('g, 'f) random_ops \<Rightarrow> 'g \<Rightarrow> int \<Rightarrow> int \<Rightarrow> error + int \<times> 'g" where
  "randint ops g a b = (if b < a then Inl ValueError else Inr (randint_op ops g a b))"

text \<open>
  \<open>rng.choice(seq)\<close> raises \<open>IndexError\<close> on an empty sequence and otherwise
  subscripts \<open>seq\<close> with the index drawn.
\<close>

definition choice :: "('g, 'f) random_ops \<Rightarrow> 'g \<Rightarrow> 'a list \<Rightarrow> error + 'a \<times> 'g" where
  "choice ops g seq =
     (if seq = [] then Inl IndexError
      else (case randbelow_op ops g (length seq) of
              (i, g') \<Rightarrow> if i < length seq then Inr (seq ! i, g') else Inl IndexError))"

subsection \<open>Labels\<close>

definition FEATURE_PAD :: nat where
  "FEATURE_PAD = 128"

fun dec :: "nat \<Rightarrow> string" where
  "dec n = (if n < 10 then [char_of (48 + n)] else dec (n div 10) @ [char_of (48 + n mod 10)])"

definition zero_pad :: "nat \<Rightarrow> string \<Rightarrow> string" where
  "zero_pad w s = replicate (w - length s) CHR ''0'' @ s"

text \<open>The format specification \<open>07d\<close>: sign first, then zeros up to width 7.\<close>

definition format_07d :: "int \<Rightarrow> string" where
  "format_07d i =
     (if i < 0 then CHR ''-'' # zero_pad 6 (dec (nat (- i))) else zero_pad 7 (dec (nat i)))"

definition ljust :: "nat \<Rightarrow> char \<Rightarrow> string \<Rightarrow> string" where
  "ljust w c s = s @ replicate (w - length s) c"

definition label :: "int \<Rightarrow> string" where
  "label object_id = ljust FEATURE_PAD CHR ''X'' (''obj'' @ format_07d object_id)"

subsection \<open>gen_ds\<close>

text \<open>
  The inner \<open>while True\<close> loop draws coordinates until one is not in \<open>used\<close>. It
  may run forever; in the model that is the value \<open>None\<close>. The result is the fresh
  coordinate and the generator state after the draws (the caller adds the coordinate to
  \<open>used\<close>).
\<close>

partial_function (option) draw_unused ::
  "('g, 'f) random_ops \<Rightarrow> int \<Rightarrow> coord set \<Rightarrow> 'g \<Rightarrow> (error + coord \<times> 'g) option" where
  "draw_unused ops grid used g =
     (case randint ops g 0 grid of
        Inl e \<Rightarrow> Some (Inl e)
      | Inr (x, g1) \<Rightarrow>
          (case randint ops g1 0 grid of
             Inl e \<Rightarrow> Some (Inl e)
           | Inr (y, g2) \<Rightarrow>
               if (x, y) \<notin> used then Some (Inr ((x, y), g2))
               else draw_unused ops grid used g2))"

declare draw_unused.simps [code]

text \<open>The \<open>for object_id in range(n)\<close> loop, over the ids still to be generated.\<close>

fun gen_rows ::
  "('g, 'f) random_ops \<Rightarrow> int \<Rightarrow> int list \<Rightarrow> coord set \<Rightarrow> row list \<Rightarrow> 'g
     \<Rightarrow> (error + row list \<times> 'g) option" where
  "gen_rows ops grid [] used rows g = Some (Inr (rows, g))"
| "gen_rows ops grid (object_id # rest) used rows g =
     (case draw_unused ops grid used g of
        None \<Rightarrow> None
      | Some (Inl e) \<Rightarrow> Some (Inl e)
      | Some (Inr (c, g')) \<Rightarrow>
          gen_rows ops grid rest (insert c used) (rows @ [(object_id, c, label object_id)]) g')"

text \<open>
  \<open>gen_ds(n, grid, rng=rng)\<close>: \<open>None\<close> when the rejection sampling never ends,
  otherwise the exception raised or the rows with the generator state left behind.
\<close>

definition gen_ds ::
  "('g, 'f) random_ops \<Rightarrow> int \<Rightarrow> int \<Rightarrow> 'g \<Rightarrow> (error + row list \<times> 'g) option" where
  "gen_ds ops n grid rng = gen_rows ops grid [0..n - 1] {} [] rng"

subsection \<open>Generators that keep drawing every coordinate\<close>

text \<open>
  Whether the rejection sampling ends depends on the numbers drawn. \<open>pair_draw\<close> is
  one attempt of the inner loop on a non-empty range: the coordinate drawn and the
  generator state after it. \<open>pair_at ops grid g k\<close> is the coordinate of attempt number
  \<open>k\<close> counted from state \<open>g\<close>. A generator draws fairly from \<open>g\<close> when every
  coordinate of the grid comes up again after any number of attempts.
\<close>

definition pair_draw :: "('g, 'f) random_ops \<Rightarrow> int \<Rightarrow> 'g \<Rightarrow> coord \<times> 'g" where
  "pair_draw ops grid g =
     (case randint_op ops g 0 grid of
        (x, g1) \<Rightarrow> (case randint_op ops g1 0 grid of (y, g2) \<Rightarrow> ((x, y), g2)))"

definition pair_next :: "('g, 'f) random_ops \<Rightarrow> int \<Rightarrow> 'g \<Rightarrow> 'g" where
  "pair_next ops grid g = snd (pair_draw ops grid g)"

definition pair_at :: "('g, 'f) random_ops \<Rightarrow> int \<Rightarrow> 'g \<Rightarrow> nat \<Rightarrow> coord" where
  "pair_at ops grid g k = fst (pair_draw ops grid ((pair_next ops grid ^^ k) g))"

definition fair_draws :: "('g, 'f) random_ops \<Rightarrow> int \<Rightarrow> 'g \<Rightarrow> bool" where
  "fair_draws ops grid g \<longleftrightarrow>
     (\<forall>x y j. 0 \<le> x \<and> x \<le> grid \<and> 0 \<le> y \<and> y \<le> grid
        \<longrightarrow> (\<exists>k\<ge>j. pair_at ops grid g k = (x, y)))"

section \<open>The latency benchmark\<close>

text \<open>
  The three query kinds, named after the keys of \<open>mix\<close>: \<open>W2What\<close> is answered by
  \<open>coord_to_oid\<close>, \<open>What2W\<close> by \<open>oid_to_coord\<close> and \<open>Integrated\<close> by
  \<open>full_lookup\<close>.
\<close>

datatype query = W2What | What2W | Integrated

text \<open>
  The conditions of the \<open>if\<close>/\<open>elif\<close>/\<open>else\<close> chain of the loop body, in their
  order. The values compared are Python floats; the model asks of their type only a
  linear order and an addition. \<open>mix["what2w"]\<close> is read only when the first test
  fails, and \<open>mix["integrated"]\<close> never.
\<close>

definition select_query :: "(string, 'f::{linorder, plus}) dict \<Rightarrow> 'f \<Rightarrow> error + query" where
  "select_query mix r =
     (case outcome (getitem mix ''w2what'') of
        Inl e \<Rightarrow> Inl e
      | Inr w \<Rightarrow>
          if r < w then Inr W2What
          else (case outcome (getitem mix ''what2w'') of
                  Inl e \<Rightarrow> Inl e
                | Inr h \<Rightarrow> if r < w + h then Inr What2W else Inr Integrated))"

text \<open>
  \<open>t0 = nano_clock(); call; acc += nano_clock() - t0\<close>, the clock being a parameter
  that returns the reading and its next state.
\<close>

definition timed :: "('c \<Rightarrow> int \<times> 'c) \<Rightarrow> 'c \<Rightarrow> int \<Rightarrow> 'a counted \<Rightarrow> error + int \<times> 'c" where
  "timed nano_clock clk acc call =
     (case nano_clock clk of
        (t0, clk1) \<Rightarrow>
          (case outcome call of
             Inl e \<Rightarrow> Inl e
           | Inr _ \<Rightarrow> (case nano_clock clk1 of (t1, clk2) \<Rightarrow> Inr (acc + (t1 - t0), clk2))))"

text \<open>One iteration of the query loop, on the state \<open>(acc, rng, clock)\<close>.\<close>

definition run_iter ::
  "('g, 'f::{linorder, plus}) random_ops \<Rightarrow> ('c \<Rightarrow> int \<times> 'c) \<Rightarrow> mem \<Rightarrow> (string, 'f) dict
     \<Rightarrow> int list \<Rightarrow> coord list \<Rightarrow> int \<times> 'g \<times> 'c \<Rightarrow> error + int \<times> 'g \<times> 'c" where
  "run_iter ops nano_clock mem mix ids coords st =
     (case st of (acc, g, clk) \<Rightarrow>
      (case random_op ops g of (r, g1) \<Rightarrow>
       (case select_query mix r of
          Inl e \<Rightarrow> Inl e
        | Inr W2What \<Rightarrow>
            (case choice ops g1 coords of
               Inl e \<Rightarrow> Inl e
             | Inr (c, g2) \<Rightarrow>
                 (case timed nano_clock clk acc (coord_to_oid mem c) of
                    Inl e \<Rightarrow> Inl e
                  | Inr (acc', clk') \<Rightarrow> Inr (acc', g2, clk')))
        | Inr What2W \<Rightarrow>
            (case choice ops g1 ids of
               Inl e \<Rightarrow> Inl e
             | Inr (oid, g2) \<Rightarrow>
                 (case timed nano_clock clk acc (oid_to_coord mem oid) of
                    Inl e \<Rightarrow> Inl e
                  | Inr (acc', clk') \<Rightarrow> Inr (acc', g2, clk')))
        | Inr Integrated \<Rightarrow>
            (case choice ops g1 ids of
               Inl e \<Rightarrow> Inl e
             | Inr (oid, g2) \<Rightarrow>
                 (case timed nano_clock clk acc (full_lookup mem oid) of
                    Inl e \<Rightarrow> Inl e
                  | Inr (acc', clk') \<Rightarrow> Inr (acc', g2, clk'))))))"

text \<open>\<open>for _ in range(total_queries)\<close>, by the number of iterations left.\<close>

fun run_loop ::
  "('g, 'f::{linorder, plus}) random_ops \<Rightarrow> ('c \<Rightarrow> int \<times> 'c) \<Rightarrow> mem \<Rightarrow> (string, 'f) dict
     \<Rightarrow> int list \<Rightarrow> coord list \<Rightarrow> nat \<Rightarrow> int \<times> 'g \<times> 'c \<Rightarrow> error + int \<times> 'g \<times> 'c" where
  "run_loop ops nano_clock mem mix ids coords 0 st = Inr st"
| "run_loop ops nano_clock mem mix ids coords (Suc k) st =
     (case run_iter ops nano_clock mem mix ids coords st of
        Inl e \<Rightarrow> Inl e
      | Inr st' \<Rightarrow> run_loop ops nano_clock mem mix ids coords k st')"

text \<open>\<open>size\<close>: \<open>len(mem.where)\<close> for a Split instance, \<open>len(mem.id_map)\<close> otherwise.\<close>

fun mem_size :: "mem \<Rightarrow> nat" where
  "mem_size (SplitMem s) = len_dict (where_tab s)"
| "mem_size (UnifiedMem u) = len_dict (id_map u)"

text \<open>The comprehension \<open>[mem.oid_to_coord(i) for i in ids]\<close>.\<close>

fun coords_of :: "mem \<Rightarrow> int list \<Rightarrow> error + coord list" where
  "coords_of mem [] = Inr []"
| "coords_of mem (i # rest) =
     (case outcome (oid_to_coord mem i) of
        Inl e \<Rightarrow> Inl e
      | Inr c \<Rightarrow> (case coords_of mem rest of Inl e \<Rightarrow> Inl e | Inr cs \<Rightarrow> Inr (c # cs)))"

text \<open>
  \<open>run(mem, total_queries, mix, rng=rng)\<close>. The mean returned is a float; the model
  gives the exact quotient, and with it the states of the generator and the clock.
\<close>

definition run ::
  "('g, 'f::{linorder, plus}) random_ops \<Rightarrow> ('c \<Rightarrow> int \<times> 'c) \<Rightarrow> mem \<Rightarrow> int
     \<Rightarrow> (string, 'f) dict \<Rightarrow> 'g \<Rightarrow> 'c \<Rightarrow> error + real \<times> 'g \<times> 'c" where
  "run ops nano_clock mem total_queries mix rng clk =
     (let size = mem_size mem;
          ids = [0..int size - 1]
      in case coords_of mem ids of
           Inl e \<Rightarrow> Inl e
         | Inr coords \<Rightarrow>
             (case run_loop ops nano_clock mem mix ids coords (nat total_queries) (0, rng, clk) of
                Inl e \<Rightarrow> Inl e
              | Inr (acc, g', clk') \<Rightarrow>
                  if total_queries = 0 then Inl ZeroDivisionError
                  else Inr (real_of_int acc / real_of_int total_queries / 1000, g', clk')))"

text \<open>
  \<open>one(seed, n, total_queries, mix, grid, model_kind)\<close>: the only caller of
  \<open>run\<close>, and the only place where a store is built. The generator that produced the
  rows goes on to drive the queries. The dictionary returned is the triple
  \<open>(seed, arch, mean_us)\<close>.
\<close>

definition one ::
  "('g, 'f::{linorder, plus}) random_ops \<Rightarrow> ('c \<Rightarrow> int \<times> 'c) \<Rightarrow> int \<Rightarrow> int \<Rightarrow> int
     \<Rightarrow> (string, 'f) dict \<Rightarrow> int \<Rightarrow> string \<Rightarrow> 'c
     \<Rightarrow> (error + (int \<times> string \<times> real) \<times> 'c) option" where
  "one ops nano_clock seed n total_queries mix grid model_kind clk =
     (case gen_ds ops n grid (seed_op ops seed) of
        None \<Rightarrow> None
      | Some (Inl e) \<Rightarrow> Some (Inl e)
      | Some (Inr (ds, rng)) \<Rightarrow>
          (if model_kind = ''Unified'' then
             (case run ops nano_clock (UnifiedMem (Unified_init ds)) total_queries mix rng clk of
                Inl e \<Rightarrow> Some (Inl e)
              | Inr (mean_us, rng', clk') \<Rightarrow> Some (Inr ((seed, model_kind, mean_us), clk')))
           else if model_kind = ''Split'' then
             (case run ops nano_clock (SplitMem (Split_init ds)) total_queries mix rng clk of
                Inl e \<Rightarrow> Some (Inl e)
              | Inr (mean_us, rng', clk') \<Rightarrow> Some (Inr ((seed, model_kind, mean_us), clk')))
           else Some (Inl ValueError)))"

section \<open>Concrete instances\<close>

text \<open>
  A small generator for running the model on concrete inputs. Its state is a cycle of
  numbers; every draw takes the head, reduces it into the range asked for, and moves it
  to the end.
\<close>

definition replay_ops :: "(nat list, real) random_ops" where
  "replay_ops =
     \<lparr> seed_op = (\<lambda>seed. [nat \<bar>seed\<bar>, 0, 0, 0, 1, 0]),
       randint_op = (\<lambda>g a b. case g of [] \<Rightarrow> (a, []) | x # xs \<Rightarrow> (a + int x mod (b - a + 1), xs @ [x])),
       random_op = (\<lambda>g. case g of [] \<Rightarrow> (0, []) | x # xs \<Rightarrow> (real x / 10, xs @ [x])),
       randbelow_op = (\<lambda>g k. case g of [] \<Rightarrow> (0, []) | x # xs \<Rightarrow> (x mod k, xs @ [x])) \<rparr>"

text \<open>The rows it generates for \<open>n = 2\<close> on the grid \<open>[0, 1] \<times> [0, 1]\<close>, after one rejected draw.\<close>

definition sample_ds :: "row list" where
  "sample_ds = [(0, (0, 0), label 0), (1, (1, 0), label 1)]"

text \<open>A query mix with all three keys, and a clock that advances by one at every reading.\<close>

definition sample_mix :: "(string, real) dict" where
  "sample_mix = [(''integrated'', 0.2), (''w2what'', 0.4), (''what2w'', 0.4)]"

definition tick :: "int \<Rightarrow> int \<times> int" where
  "tick t = (t, t + 1)"

text \<open>
  A state from which \<open>replay_ops\<close> draws the coordinates \<open>(0, 0)\<close>, \<open>(0, 0)\<close>,
  \<open>(1, 0)\<close>, \<open>(0, 1)\<close>, \<open>(1, 1)\<close> of the grid \<open>[0, 1] \<times> [0, 1]\<close> over and over.
\<close>

definition sweep_state :: "nat list" where
  "sweep_state = [0, 0, 0, 0, 1, 0, 0, 1, 1, 1]"

text \<open>
  A generator of another kind: its state is a position in a fixed cycle. From position
  \<open>0\<close> it draws the numbers that \<open>replay_ops\<close> draws after the seed \<open>0\<close>.
\<close>

definition cycle6 :: "nat list" where
  "cycle6 = [0, 0, 0, 0, 1, 0]"

definition index_ops :: "(nat, rat) random_ops" where
  "index_ops =
     \<lparr> seed_op = (\<lambda>seed. 0),
       randint_op = (\<lambda>k a b. (a + int (cycle6 ! (k mod 6)) mod (b - a + 1), Suc k)),
       random_op = (\<lambda>k. (0, k)),
       randbelow_op = (\<lambda>k m. (0, k)) \<rparr>"

text \<open>
  A Split instance whose three methods behave differently on the id \<open>0\<close>:
  \<open>oid_to_coord\<close> returns, \<open>full_lookup\<close> raises \<open>KeyError\<close>.
\<close>

definition probe :: mem where
  "probe = SplitMem \<lparr> where_tab = [(0, (0, 0))], what = [], idx = [] \<rparr>"

section \<open>Properties of dictionaries\<close>

lemma map_of_foldl_update:
  "map_of (foldl (\<lambda>d (k, v). AList.update k v d) d kvs) = map_of d ++ map_of (rev kvs)"
proof (induction kvs arbitrary: d)
  case Nil
  show ?case by simp
next
  case (Cons kv kvs)
  obtain k v where kv: "kv = (k, v)" by (cases kv)
  show ?case
    by (simp add: kv Cons.IH AList.update_conv' fun_eq_iff map_add_def split: option.splits)
qed

lemma map_of_dict_comp: "map_of (dict_comp kvs) = map_of (rev kvs)"
  by (simp add: dict_comp_def map_of_foldl_update)

lemma dict_comp_SomeD: "map_of (dict_comp kvs) k = Some v \<Longrightarrow> (k, v) \<in> set kvs"
  using map_of_SomeD [of "rev kvs" k v] by (simp add: map_of_dict_comp)

lemma dict_comp_None_iff: "map_of (dict_comp kvs) k = None \<longleftrightarrow> k \<notin> fst ` set kvs"
  by (simp add: map_of_dict_comp map_of_eq_None_iff)

lemma dict_comp_SomeI:
  "distinct (map fst kvs) \<Longrightarrow> (k, v) \<in> set kvs \<Longrightarrow> map_of (dict_comp kvs) k = Some v"
  by (simp add: map_of_dict_comp rev_map [symmetric])

lemma distinct_foldl_update:
  "distinct (map fst d) \<Longrightarrow> distinct (map fst (foldl (\<lambda>d (k, v). AList.update k v d) d kvs))"
  by (induction kvs arbitrary: d) (auto simp: AList.distinct_update)

lemma keys_foldl_update:
  "fst ` set (foldl (\<lambda>d (k, v). AList.update k v d) d kvs) = fst ` set d \<union> fst ` set kvs"
proof (induction kvs arbitrary: d)
  case Nil
  show ?case by simp
next
  case (Cons kv kvs)
  obtain k v where kv: "kv = (k, v)" by (cases kv)
  have "fst ` set (AList.update k v d) = insert k (fst ` set d)"
    by (simp add: AList.dom_update)
  then show ?case by (simp add: kv Cons.IH)
qed

lemma len_dict_comp: "len_dict (dict_comp kvs) = card (fst ` set kvs)"
proof -
  have d: "distinct (map fst (dict_comp kvs))"
    unfolding dict_comp_def by (rule distinct_foldl_update) simp
  have "fst ` set (dict_comp kvs) = fst ` set kvs"
    unfolding dict_comp_def by (simp add: keys_foldl_update)
  then have "card (fst ` set kvs) = card (set (map fst (dict_comp kvs)))" by simp
  also have "\<dots> = length (map fst (dict_comp kvs))" using d by (rule distinct_card)
  finally show ?thesis by (simp add: len_dict_def)
qed

lemma dict_comp_map_Some:
  assumes "distinct (map (fst \<circ> p) ds)" and "r \<in> set ds"
  shows "map_of (dict_comp (map p ds)) (fst (p r)) = Some (snd (p r))"
proof (rule dict_comp_SomeI)
  show "distinct (map fst (map p ds))" using assms(1) by simp
  show "(fst (p r), snd (p r)) \<in> set (map p ds)" using assms(2) by simp
qed

lemma dict_comp_map_None_iff:
  "map_of (dict_comp (map p ds)) k = None \<longleftrightarrow> k \<notin> (fst \<circ> p) ` set ds"
  by (simp add: dict_comp_None_iff image_comp)

lemma dict_comp_map_SomeD:
  "map_of (dict_comp (map p ds)) k = Some v \<Longrightarrow> \<exists>r \<in> set ds. p r = (k, v)"
  by (drule dict_comp_SomeD) auto


section \<open>Properties of the generated dataset\<close>

lemma draw_unused_result:
  assumes "draw_unused ops grid used g = Some y"
  shows "\<forall>c g'. y = Inr (c, g') \<longrightarrow> c \<notin> used"
proof (rule draw_unused.raw_induct
    [where P = "\<lambda>ops grid used g y. \<forall>c g'. y = Inr (c, g') \<longrightarrow> c \<notin> used", OF _ assms])
  fix f :: "('a, 'b) random_ops \<Rightarrow> int \<Rightarrow> coord set \<Rightarrow> 'a \<Rightarrow> (error + coord \<times> 'a) option"
    and ops grid used g y
  assume IH: "\<And>ops grid used g y. f ops grid used g = Some y
                \<Longrightarrow> \<forall>c g'. y = Inr (c, g') \<longrightarrow> c \<notin> used"
    and step: "(case randint ops g 0 grid of
        Inl e \<Rightarrow> Some (Inl e)
      | Inr (x, g1) \<Rightarrow>
          (case randint ops g1 0 grid of
             Inl e \<Rightarrow> Some (Inl e)
           | Inr (y, g2) \<Rightarrow>
               if (x, y) \<notin> used then Some (Inr ((x, y), g2))
               else f ops grid used g2)) = Some y"
  show "\<forall>c g'. y = Inr (c, g') \<longrightarrow> c \<notin> used"
    using step IH
    by (auto split: sum.splits prod.splits if_splits)
qed

lemma draw_unused_fresh:
  "draw_unused ops grid used g = Some (Inr (c, g')) \<Longrightarrow> c \<notin> used"
  using draw_unused_result [of ops grid used g "Inr (c, g')"] by blast

lemma gen_rows_inv:
  assumes "gen_rows ops grid oids used rows g = Some (Inr (ds, g'))"
    and "(fst \<circ> snd) ` set rows \<subseteq> used"
    and "distinct (map (fst \<circ> snd) rows)"
  shows "distinct (map (fst \<circ> snd) ds) \<and> map fst ds = map fst rows @ oids
         \<and> map (snd \<circ> snd) ds = map (snd \<circ> snd) rows @ map label oids"
  using assms
proof (induction oids arbitrary: used rows g)
  case Nil
  then show ?case by simp
next
  case (Cons oid oids)
  from Cons.prems(1) obtain c g1 where
    d: "draw_unused ops grid used g = Some (Inr (c, g1))" and
    r: "gen_rows ops grid oids (insert c used) (rows @ [(oid, c, label oid)]) g1 = Some (Inr (ds, g'))"
    by (auto split: option.splits sum.splits prod.splits)
  have fresh: "c \<notin> used" using d by (rule draw_unused_fresh)
  have s: "(fst \<circ> snd) ` set (rows @ [(oid, c, label oid)]) \<subseteq> insert c used"
    using Cons.prems(2) by auto
  have "c \<notin> (fst \<circ> snd) ` set rows" using fresh Cons.prems(2) by blast
  then have dd: "distinct (map (fst \<circ> snd) (rows @ [(oid, c, label oid)]))"
    using Cons.prems(3) by (simp add: comp_def)
  from Cons.IH [OF r s dd] show ?case by simp
qed

lemma gen_ds_rows:
  assumes "gen_ds ops n grid g = Some (Inr (ds, g'))"
  shows "distinct (map (fst \<circ> snd) ds)" and "map fst ds = [0..n - 1]"
    and "map (snd \<circ> snd) ds = map label [0..n - 1]"
  using gen_rows_inv [of ops grid "[0..n - 1]" "{}" "[]" g ds g'] assms
  by (simp_all add: gen_ds_def)

lemma gen_ds_length:
  assumes "gen_ds ops n grid g = Some (Inr (ds, g'))"
  shows "int (length ds) = max 0 n"
proof -
  have "length ds = length (map fst ds)" by simp
  also have "\<dots> = length [0..n - 1]" using gen_ds_rows(2) [OF assms] by simp
  finally show ?thesis by simp
qed

lemma gen_ds_mem:
  assumes "gen_ds ops n grid g = Some (Inr (ds, g'))" and "0 \<le> i" and "i < n"
  shows "\<exists>c f. (i, c, f) \<in> set ds"
proof -
  have "i \<in> set (map fst ds)" using gen_ds_rows(2) [OF assms(1)] assms(2,3) by simp
  then show ?thesis by force
qed

lemma gen_ds_dense:
  assumes "gen_ds ops n grid g = Some (Inr (ds, g'))"
  shows "map fst ds = [0..int (length ds) - 1]"
proof -
  have "int (length ds) - 1 = n - 1 \<or> (n < 0 \<and> length ds = 0)"
    using gen_ds_length [OF assms] by auto
  then show ?thesis using gen_ds_rows(2) [OF assms] by auto
qed

text \<open>
  Termination. On a non-empty range an attempt of the inner loop is a \<open>pair_draw\<close>.
  If some later attempt draws a coordinate outside \<open>used\<close>, the loop ends; while fewer
  than \<open>(grid + 1)\<^sup>2\<close> coordinates are used, one of the grid is missing from \<open>used\<close>,
  and a fair generator draws it.
\<close>

lemma draw_unused_step:
  assumes "0 \<le> grid"
  shows "draw_unused ops grid used g =
     (if fst (pair_draw ops grid g) \<notin> used
      then Some (Inr (fst (pair_draw ops grid g), pair_next ops grid g))
      else draw_unused ops grid used (pair_next ops grid g))"
  using assms
  by (subst draw_unused.simps)
     (simp add: randint_def pair_draw_def pair_next_def split: prod.splits)

lemma pair_at_Suc: "pair_at ops grid g (Suc k) = pair_at ops grid (pair_next ops grid g) k"
  by (simp add: pair_at_def funpow_swap1)

lemma pair_at_shift:
  "pair_at ops grid ((pair_next ops grid ^^ m) g) k = pair_at ops grid g (k + m)"
  by (simp add: pair_at_def funpow_add)

lemma draw_unused_terminates:
  assumes "0 \<le> grid" and "pair_at ops grid g k \<notin> used"
  shows "\<exists>c j. draw_unused ops grid used g = Some (Inr (c, (pair_next ops grid ^^ Suc j) g))
               \<and> c \<notin> used"
  using assms(2)
proof (induction k arbitrary: g)
  case 0
  then have "fst (pair_draw ops grid g) \<notin> used" by (simp add: pair_at_def)
  then have "draw_unused ops grid used g
               = Some (Inr (fst (pair_draw ops grid g), (pair_next ops grid ^^ Suc 0) g))
             \<and> fst (pair_draw ops grid g) \<notin> used"
    by (simp add: draw_unused_step [OF assms(1)])
  then show ?case by blast
next
  case (Suc k)
  show ?case
  proof (cases "fst (pair_draw ops grid g) \<in> used")
    case False
    then have "draw_unused ops grid used g
               = Some (Inr (fst (pair_draw ops grid g), (pair_next ops grid ^^ Suc 0) g))
             \<and> fst (pair_draw ops grid g) \<notin> used"
      by (simp add: draw_unused_step [OF assms(1)])
    then show ?thesis by blast
  next
    case True
    have "pair_at ops grid (pair_next ops grid g) k \<notin> used"
      using Suc.prems by (simp add: pair_at_Suc)
    from Suc.IH [OF this] obtain c j where
      r: "draw_unused ops grid used (pair_next ops grid g)
            = Some (Inr (c, (pair_next ops grid ^^ Suc j) (pair_next ops grid g)))"
      and c: "c \<notin> used" by blast
    have "draw_unused ops grid used g = Some (Inr (c, (pair_next ops grid ^^ Suc (Suc j)) g))"
      using True r by (subst draw_unused_step [OF assms(1)]) (simp add: funpow_swap1)
    then show ?thesis using c by blast
  qed
qed

lemma card_square:
  assumes "0 \<le> grid"
  shows "card ({0..grid} \<times> {0..grid}) = nat ((grid + 1)\<^sup>2)"
  using assms by (simp add: card_cartesian_product power2_eq_square nat_mult_distrib)

lemma unused_in_square:
  assumes "0 \<le> grid" and "finite used" and "card used < nat ((grid + 1)\<^sup>2)"
  shows "\<exists>x y. 0 \<le> x \<and> x \<le> grid \<and> 0 \<le> y \<and> y \<le> grid \<and> (x, y) \<notin> used"
proof (rule ccontr)
  assume "\<not> ?thesis"
  then have "{0..grid} \<times> {0..grid} \<subseteq> used" by auto
  then have "card ({0..grid} \<times> {0..grid}) \<le> card used" using assms(2) by (rule card_mono [rotated])
  then show False using assms(3) by (simp add: card_square [OF assms(1)])
qed

lemma gen_rows_terminates:
  assumes "0 \<le> grid" and "fair_draws ops grid rng"
  shows "finite used \<Longrightarrow> card used + length oids \<le> nat ((grid + 1)\<^sup>2)
           \<Longrightarrow> \<exists>rows' g'. gen_rows ops grid oids used rows ((pair_next ops grid ^^ m) rng)
                              = Some (Inr (rows', g'))"
proof (induction oids arbitrary: used rows m)
  case Nil
  show ?case by simp
next
  case (Cons oid oids)
  have "card used < nat ((grid + 1)\<^sup>2)" using Cons.prems(2) by simp
  from unused_in_square [OF assms(1) Cons.prems(1) this] obtain x y where
    sq: "0 \<le> x \<and> x \<le> grid \<and> 0 \<le> y \<and> y \<le> grid" and fresh: "(x, y) \<notin> used" by blast
  from assms(2) sq obtain k where k: "m \<le> k" and at: "pair_at ops grid rng k = (x, y)"
    unfolding fair_draws_def by blast
  have "pair_at ops grid ((pair_next ops grid ^^ m) rng) (k - m) = (x, y)"
    using k at by (simp add: pair_at_shift)
  then have "pair_at ops grid ((pair_next ops grid ^^ m) rng) (k - m) \<notin> used"
    using fresh by simp
  from draw_unused_terminates [OF assms(1) this] obtain c j where
    d: "draw_unused ops grid used ((pair_next ops grid ^^ m) rng)
          = Some (Inr (c, (pair_next ops grid ^^ Suc j) ((pair_next ops grid ^^ m) rng)))"
    and c: "c \<notin> used" by blast
  have st: "(pair_next ops grid ^^ Suc j) ((pair_next ops grid ^^ m) rng)
              = (pair_next ops grid ^^ (Suc j + m)) rng"
    by (simp only: funpow_add comp_apply)
  have fin: "finite (insert c used)" using Cons.prems(1) by simp
  have crd: "card (insert c used) + length oids \<le> nat ((grid + 1)\<^sup>2)"
    using Cons.prems c by simp
  from Cons.IH [OF fin crd, of "rows @ [(oid, c, label oid)]" "Suc j + m"]
  show ?case by (simp add: d st del: funpow.simps)
qed

text \<open>
  The outcome of \<open>gen_ds\<close> depends on the generator only through the numbers it
  draws: two generators, of any two kinds, whose states are related by a relation that
  \<open>randint\<close> preserves while drawing equal numbers, produce the same rows, raise the
  same exception, or both keep sampling forever.
\<close>

lemma draw_unused_sim:
  fixes ops1 :: "('g, 'f) random_ops" and ops2 :: "('h, 'e) random_ops"
  assumes sim: "\<And>g h a b. R g h \<Longrightarrow>
                  fst (randint_op ops1 g a b) = fst (randint_op ops2 h a b)
                  \<and> R (snd (randint_op ops1 g a b)) (snd (randint_op ops2 h a b))"
    and ret: "draw_unused ops1 grid used g = Some y"
  shows "\<forall>h. R g h \<longrightarrow>
           (\<exists>y'. draw_unused ops2 grid used h = Some y' \<and> rel_sum (=) (rel_prod (=) R) y y')"
proof -
  have "ops1 = ops1 \<longrightarrow> (\<forall>h. R g h \<longrightarrow>
           (\<exists>y'. draw_unused ops2 grid used h = Some y' \<and> rel_sum (=) (rel_prod (=) R) y y'))"
  proof (rule draw_unused.raw_induct
    [where P = "\<lambda>ops grid used g y. ops = ops1 \<longrightarrow> (\<forall>h. R g h \<longrightarrow>
           (\<exists>y'. draw_unused ops2 grid used h = Some y' \<and> rel_sum (=) (rel_prod (=) R) y y'))",
      OF _ ret], intro impI allI)
  fix f :: "('g, 'f) random_ops \<Rightarrow> int \<Rightarrow> coord set \<Rightarrow> 'g \<Rightarrow> (error + coord \<times> 'g) option"
    and ops grid used g y h
  assume IH: "\<And>ops grid used g y. f ops grid used g = Some y \<Longrightarrow> ops = ops1 \<longrightarrow> (\<forall>h. R g h \<longrightarrow>
           (\<exists>y'. draw_unused ops2 grid used h = Some y' \<and> rel_sum (=) (rel_prod (=) R) y y'))"
    and step: "(case randint ops g 0 grid of
        Inl e \<Rightarrow> Some (Inl e)
      | Inr (x, g1) \<Rightarrow>
          (case randint ops g1 0 grid of
             Inl e \<Rightarrow> Some (Inl e)
           | Inr (y, g2) \<Rightarrow>
               if (x, y) \<notin> used then Some (Inr ((x, y), g2))
               else f ops grid used g2)) = Some y"
    and ops: "ops = ops1" and R: "R g h"
  show "\<exists>y'. draw_unused ops2 grid used h = Some y' \<and> rel_sum (=) (rel_prod (=) R) y y'"
  proof (cases "grid < 0")
    case True
    then have "y = Inl ValueError" using step by (simp add: randint_def)
    moreover have "draw_unused ops2 grid used h = Some (Inl ValueError)"
      using True by (subst draw_unused.simps) (simp add: randint_def)
    ultimately show ?thesis by simp
  next
    case False
    obtain x g1 where a1: "randint_op ops1 g 0 grid = (x, g1)" by (cases "randint_op ops1 g 0 grid")
    obtain x' h1 where b1: "randint_op ops2 h 0 grid = (x', h1)" by (cases "randint_op ops2 h 0 grid")
    have x: "x' = x" and R1: "R g1 h1" using sim [OF R, of 0 grid] a1 b1 by simp_all
    obtain z g2 where a2: "randint_op ops1 g1 0 grid = (z, g2)" by (cases "randint_op ops1 g1 0 grid")
    obtain z' h2 where b2: "randint_op ops2 h1 0 grid = (z', h2)" by (cases "randint_op ops2 h1 0 grid")
    have z: "z' = z" and R2: "R g2 h2" using sim [OF R1, of 0 grid] a2 b2 by simp_all
    have unf: "draw_unused ops2 grid used h =
        (if (x, z) \<notin> used then Some (Inr ((x, z), h2)) else draw_unused ops2 grid used h2)"
      using False by (subst draw_unused.simps) (simp add: randint_def b1 b2 x z)
    show ?thesis
    proof (cases "(x, z) \<in> used")
      case False
      then have "y = Inr ((x, z), g2)" using step \<open>\<not> grid < 0\<close> by (simp add: randint_def ops a1 a2)
      then show ?thesis using False R2 by (simp add: unf)
    next
      case True
      then have "f ops grid used g2 = Some y" using step \<open>\<not> grid < 0\<close> by (simp add: randint_def ops a1 a2)
      from IH [OF this] ops R2 show ?thesis using True by (simp add: unf)
    qed
  qed
  qed
  then show ?thesis by simp
qed

lemma draw_unused_rel:
  fixes ops1 :: "('g, 'f) random_ops" and ops2 :: "('h, 'e) random_ops"
  assumes sim: "\<And>g h a b. R g h \<Longrightarrow>
                  fst (randint_op ops1 g a b) = fst (randint_op ops2 h a b)
                  \<and> R (snd (randint_op ops1 g a b)) (snd (randint_op ops2 h a b))"
    and R: "R g h"
  shows "rel_option (rel_sum (=) (rel_prod (=) R))
           (draw_unused ops1 grid used g) (draw_unused ops2 grid used h)"
proof (cases "draw_unused ops1 grid used g")
  case (Some y)
  then show ?thesis using draw_unused_sim [of R ops1 ops2, OF sim Some] R by auto
next
  case None
  show ?thesis
  proof (cases "draw_unused ops2 grid used h")
    case None
    then show ?thesis using \<open>draw_unused ops1 grid used g = None\<close> by simp
  next
    case (Some y')
    have swapped: "\<And>h g a b. (\<lambda>h g. R g h) h g \<Longrightarrow>
                  fst (randint_op ops2 h a b) = fst (randint_op ops1 g a b)
                  \<and> (\<lambda>h g. R g h) (snd (randint_op ops2 h a b)) (snd (randint_op ops1 g a b))"
      using sim by simp
    from draw_unused_sim [of "\<lambda>h g. R g h" ops2 ops1, OF swapped Some] R
    show ?thesis using None by auto
  qed
qed

lemma gen_rows_rel:
  fixes ops1 :: "('g, 'f) random_ops" and ops2 :: "('h, 'e) random_ops"
  assumes sim: "\<And>g h a b. R g h \<Longrightarrow>
                  fst (randint_op ops1 g a b) = fst (randint_op ops2 h a b)
                  \<and> R (snd (randint_op ops1 g a b)) (snd (randint_op ops2 h a b))"
    and R: "R g h"
  shows "rel_option (rel_sum (=) (rel_prod (=) R))
           (gen_rows ops1 grid oids used rows g) (gen_rows ops2 grid oids used rows h)"
  using R
proof (induction oids arbitrary: used rows g h)
  case Nil
  then show ?case by simp
next
  case (Cons oid oids)
  have d: "rel_option (rel_sum (=) (rel_prod (=) R))
           (draw_unused ops1 grid used g) (draw_unused ops2 grid used h)"
    using sim Cons.prems by (rule draw_unused_rel)
  show ?case
  proof (cases "draw_unused ops1 grid used g")
    case None
    then show ?thesis using d by (cases "draw_unused ops2 grid used h") simp_all
  next
    case (Some y)
    then obtain y' where y': "draw_unused ops2 grid used h = Some y'"
      and r: "rel_sum (=) (rel_prod (=) R) y y'"
      using d by (cases "draw_unused ops2 grid used h") simp_all
    show ?thesis
    proof (cases y)
      case (Inl e)
      then show ?thesis using r Some y' by (cases y') simp_all
    next
      case (Inr p)
      obtain c g1 where p: "p = (c, g1)" by (cases p)
      obtain h1 where "y' = Inr (c, h1)" and "R g1 h1"
        using r Inr p by (cases y') auto
      then show ?thesis using Some y' Inr p Cons.IH [of g1 h1] by simp
    qed
  qed
qed

lemma gen_ds_rel:
  fixes ops1 :: "('g, 'f) random_ops" and ops2 :: "('h, 'e) random_ops"
  assumes "\<And>g h a b. R g h \<Longrightarrow>
                  fst (randint_op ops1 g a b) = fst (randint_op ops2 h a b)
                  \<and> R (snd (randint_op ops1 g a b)) (snd (randint_op ops2 h a b))"
    and "R g h"
  shows "rel_option (rel_sum (=) (rel_prod (=) R)) (gen_ds ops1 n grid g) (gen_ds ops2 n grid h)"
  unfolding gen_ds_def using assms by (rule gen_rows_rel)

lemma rel_same_rows:
  assumes "rel_option (rel_sum (=) (rel_prod (=) R)) x y"
  shows "map_option (map_sum id fst) x = map_option (map_sum id fst) y"
proof (cases x)
  case None
  then show ?thesis using assms by (cases y) simp_all
next
  case (Some a)
  then obtain b where y: "y = Some b" and r: "rel_sum (=) (rel_prod (=) R) a b"
    using assms by (cases y) simp_all
  show ?thesis
  proof (cases a)
    case (Inl e)
    then show ?thesis using r Some y by (cases b) simp_all
  next
    case (Inr p)
    then show ?thesis using r Some y by (cases b) (auto simp: rel_prod_conv split: prod.splits)
  qed
qed

section \<open>Properties of the stores\<close>

lemma key_id_rows: "fst \<circ> (\<lambda>(oid, c, f). (oid, (c, f))) = fst"
  and key_where_rows: "fst \<circ> (\<lambda>(oid, c, f). (oid, c)) = fst"
  and key_what_rows: "fst \<circ> (\<lambda>(oid, c, f). (oid, f)) = fst"
  and key_coord_rows: "fst \<circ> (\<lambda>(oid, c, f). (c, (oid, f))) = fst \<circ> snd"
  and key_idx_rows: "fst \<circ> (\<lambda>(oid, c, f). (c, oid)) = fst \<circ> snd"
  by (auto simp: fun_eq_iff)

lemma id_map_Some:
  assumes "distinct (map fst ds)" and "(oid, c, f) \<in> set ds"
  shows "map_of (id_map (Unified_init ds)) oid = Some (c, f)"
  using dict_comp_map_Some [of "\<lambda>(oid, c, f). (oid, (c, f))" ds "(oid, c, f)"] assms
  by (simp add: Unified_init_def key_id_rows)

lemma coord_map_Some:
  assumes "distinct (map (fst \<circ> snd) ds)" and "(oid, c, f) \<in> set ds"
  shows "map_of (coord_map (Unified_init ds)) c = Some (oid, f)"
  using dict_comp_map_Some [of "\<lambda>(oid, c, f). (c, (oid, f))" ds "(oid, c, f)"] assms
  by (simp add: Unified_init_def key_coord_rows)

lemma where_Some:
  assumes "distinct (map fst ds)" and "(oid, c, f) \<in> set ds"
  shows "map_of (where_tab (Split_init ds)) oid = Some c"
  using dict_comp_map_Some [of "\<lambda>(oid, c, f). (oid, c)" ds "(oid, c, f)"] assms
  by (simp add: Split_init_def key_where_rows)

lemma what_Some:
  assumes "distinct (map fst ds)" and "(oid, c, f) \<in> set ds"
  shows "map_of (what (Split_init ds)) oid = Some f"
  using dict_comp_map_Some [of "\<lambda>(oid, c, f). (oid, f)" ds "(oid, c, f)"] assms
  by (simp add: Split_init_def key_what_rows)

lemma idx_Some:
  assumes "distinct (map (fst \<circ> snd) ds)" and "(oid, c, f) \<in> set ds"
  shows "map_of (idx (Split_init ds)) c = Some oid"
  using dict_comp_map_Some [of "\<lambda>(oid, c, f). (c, oid)" ds "(oid, c, f)"] assms
  by (simp add: Split_init_def key_idx_rows)

lemma id_map_None_iff: "map_of (id_map (Unified_init ds)) oid = None \<longleftrightarrow> oid \<notin> fst ` set ds"
  by (simp add: Unified_init_def dict_comp_None_iff)
lemma where_None_iff: "map_of (where_tab (Split_init ds)) oid = None \<longleftrightarrow> oid \<notin> fst ` set ds"
  by (simp add: Split_init_def dict_comp_map_None_iff key_where_rows)
lemma what_None_iff: "map_of (what (Split_init ds)) oid = None \<longleftrightarrow> oid \<notin> fst ` set ds"
  by (simp add: Split_init_def dict_comp_map_None_iff key_what_rows)
lemma coord_map_None_iff:
  "map_of (coord_map (Unified_init ds)) c = None \<longleftrightarrow> c \<notin> (fst \<circ> snd) ` set ds"
  by (simp add: Unified_init_def dict_comp_map_None_iff key_coord_rows)
lemma idx_None_iff:
  "map_of (idx (Split_init ds)) c = None \<longleftrightarrow> c \<notin> (fst \<circ> snd) ` set ds"
  by (simp add: Split_init_def dict_comp_map_None_iff key_idx_rows)

lemma where_SomeD:
  "map_of (where_tab (Split_init ds)) oid = Some c \<Longrightarrow> \<exists>f. (oid, c, f) \<in> set ds"
  unfolding Split_init_def by (simp, drule dict_comp_map_SomeD) auto
lemma idx_SomeD:
  "map_of (idx (Split_init ds)) c = Some oid \<Longrightarrow> \<exists>f. (oid, c, f) \<in> set ds"
  unfolding Split_init_def by (simp, drule dict_comp_map_SomeD) auto

lemma getitem_Some: "map_of d k = Some v \<Longrightarrow> getitem d k = (Inr v, 1)"
  by (simp add: getitem_def)

lemma getitem_None: "map_of d k = None \<Longrightarrow> getitem d k = (Inl KeyError, 1)"
  by (simp add: getitem_def)

text \<open>
  On rows with pairwise distinct ids and pairwise distinct coordinates, every method of
  either class finds the row asked for; the second component is its number of reads.
\<close>

lemma Unified_methods:
  assumes "distinct (map fst ds)" and "distinct (map (fst \<circ> snd) ds)" and "(oid, c, f) \<in> set ds"
  shows "Unified_oid_to_coord (Unified_init ds) oid = (Inr c, 1)"
    and "Unified_coord_to_oid (Unified_init ds) c = (Inr oid, 1)"
    and "Unified_full_lookup (Unified_init ds) oid = (Inr (c, f), 1)"
  using id_map_Some [OF assms(1,3)] coord_map_Some [OF assms(2,3)]
  by (simp_all add: Unified_oid_to_coord_def Unified_coord_to_oid_def Unified_full_lookup_def
      getitem_Some then_c_def return_c_def)

lemma Split_methods:
  assumes "distinct (map fst ds)" and "distinct (map (fst \<circ> snd) ds)" and "(oid, c, f) \<in> set ds"
  shows "Split_oid_to_coord (Split_init ds) oid = (Inr c, 1)"
    and "Split_coord_to_oid (Split_init ds) c = (Inr oid, 1)"
    and "Split_full_lookup (Split_init ds) oid = (Inr (c, f), 4)"
  using where_Some [OF assms(1,3)] what_Some [OF assms(1,3)] idx_Some [OF assms(2,3)]
  by (simp_all add: Split_oid_to_coord_def Split_coord_to_oid_def Split_full_lookup_def
      getitem_Some then_c_def return_c_def)

text \<open>
  On any rows at all, \<open>Split.full_lookup\<close> of an id that occurs in them goes through
  all four of its reads: the coordinate found in \<open>where\<close> is a key of \<open>idx\<close>, and
  the id found there is a key of \<open>what\<close>.
\<close>

lemma Split_full_lookup_reads:
  assumes "oid \<in> fst ` set ds"
  shows "\<exists>c f. Split_full_lookup (Split_init ds) oid = (Inr (c, f), 4)"
proof -
  obtain c where w: "map_of (where_tab (Split_init ds)) oid = Some c"
    using assms where_None_iff [of ds oid] by (cases "map_of (where_tab (Split_init ds)) oid") auto
  obtain f where h: "map_of (what (Split_init ds)) oid = Some f"
    using assms what_None_iff [of ds oid] by (cases "map_of (what (Split_init ds)) oid") auto
  obtain f' where "(oid, c, f') \<in> set ds" using where_SomeD [OF w] by blast
  then have "c \<in> (fst \<circ> snd) ` set ds" by force
  then obtain oid_2 where i: "map_of (idx (Split_init ds)) c = Some oid_2"
    using idx_None_iff [of ds c] by (cases "map_of (idx (Split_init ds)) c") auto
  obtain f'' where "(oid_2, c, f'') \<in> set ds" using idx_SomeD [OF i] by blast
  then have "oid_2 \<in> fst ` set ds" by force
  then obtain f2 where h2: "map_of (what (Split_init ds)) oid_2 = Some f2"
    using what_None_iff [of ds oid_2] by (cases "map_of (what (Split_init ds)) oid_2") auto
  have "Split_full_lookup (Split_init ds) oid = (Inr (c, f), 4)"
    by (simp add: Split_full_lookup_def getitem_Some w h i h2 then_c_def return_c_def)
  then show ?thesis by blast
qed

lemma Unified_full_lookup_reads: "accesses (Unified_full_lookup self oid) = 1"
  by (simp add: Unified_full_lookup_def getitem_def accesses_def split: option.splits)

section \<open>Properties of the benchmark run\<close>

lemma mem_size_Unified: "mem_size (UnifiedMem (Unified_init ds)) = card (fst ` set ds)"
  by (simp add: Unified_init_def len_dict_comp)

lemma mem_size_Split: "mem_size (SplitMem (Split_init ds)) = card (fst ` set ds)"
  using len_dict_comp [of "map (\<lambda>(oid, c, f). (oid, c)) ds"]
  by (simp add: Split_init_def image_comp key_where_rows)

lemma oid_to_coord_present:
  assumes "oid \<in> fst ` set ds"
    and "mem = UnifiedMem (Unified_init ds) \<or> mem = SplitMem (Split_init ds)"
  shows "\<exists>c. outcome (oid_to_coord mem oid) = Inr c"
proof -
  obtain e where "map_of (id_map (Unified_init ds)) oid = Some e"
    using assms(1) id_map_None_iff [of ds oid] by (cases "map_of (id_map (Unified_init ds)) oid") auto
  moreover obtain c where "map_of (where_tab (Split_init ds)) oid = Some c"
    using assms(1) where_None_iff [of ds oid] by (cases "map_of (where_tab (Split_init ds)) oid") auto
  ultimately show ?thesis
    using assms(2)
    by (auto simp: Unified_oid_to_coord_def Split_oid_to_coord_def getitem_Some then_c_def
        return_c_def outcome_def)
qed

lemma coords_of_present:
  assumes "\<And>i. i \<in> set ids \<Longrightarrow> \<exists>c. outcome (oid_to_coord mem i) = Inr c"
  shows "\<exists>cs. coords_of mem ids = Inr cs"
  using assms
proof (induction ids)
  case Nil
  show ?case by simp
next
  case (Cons i ids)
  obtain c where c: "outcome (oid_to_coord mem i) = Inr c" using Cons.prems [of i] by auto
  obtain cs where cs: "coords_of mem ids = Inr cs" using Cons.IH Cons.prems by auto
  show ?case by (simp add: c cs)
qed

lemma run_zero_never_returns: "\<exists>e. run ops nano_clock mem 0 mix rng clk = Inl e"
  by (simp add: run_def Let_def split: sum.splits)

text \<open>
  With no queries the loop body never runs, and the mean divides by zero. The rows of
  \<open>gen_ds\<close> have the ids \<open>0, \<dots>, n - 1\<close>, for which the precomputation of
  \<open>coords\<close> succeeds.
\<close>

lemma run_zero_dense:
  assumes "map fst ds = [0..int (length ds) - 1]"
    and "mem = UnifiedMem (Unified_init ds) \<or> mem = SplitMem (Split_init ds)"
  shows "run ops nano_clock mem 0 mix rng clk = Inl ZeroDivisionError"
proof -
  have d: "distinct (map fst ds)" using assms(1) by simp
  have "card (fst ` set ds) = length ds"
    using distinct_card [OF d] by simp
  then have size: "mem_size mem = length ds"
    using assms(2) mem_size_Unified [of ds] mem_size_Split [of ds] by auto
  have ids: "set [0..int (length ds) - 1] = fst ` set ds"
    using arg_cong [OF assms(1), of set] by simp
  have "\<exists>cs. coords_of mem [0..int (length ds) - 1] = Inr cs"
  proof (rule coords_of_present)
    fix i assume "i \<in> set [0..int (length ds) - 1]"
    then have "i \<in> fst ` set ds" by (simp only: ids)
    then show "\<exists>c. outcome (oid_to_coord mem i) = Inr c"
      using assms(2) by (rule oid_to_coord_present)
  qed
  then obtain cs where cs: "coords_of mem [0..int (length ds) - 1] = Inr cs" by blast
  show ?thesis by (simp add: run_def size cs)
qed

lemma one_zero_queries:
  assumes "gen_ds ops n grid (seed_op ops seed) = Some (Inr (ds, rng))"
    and "model_kind = ''Unified'' \<or> model_kind = ''Split''"
  shows "one ops nano_clock seed n 0 mix grid model_kind clk = Some (Inl ZeroDivisionError)"
  using assms(2)
  by (auto simp: one_def assms(1) run_zero_dense [OF gen_ds_dense [OF assms(1)]])

text \<open>
  The precomputation reads the ids \<open>0, \<dots>, size - 1\<close>; on rows with other ids it
  raises \<open>KeyError\<close> before the loop and the division are reached.
\<close>

lemma run_zero_other_ids:
  "run ops nano_clock (UnifiedMem (Unified_init [(5, (0, 0), label 5)])) 0 mix rng clk = Inl KeyError"
  by (simp add: run_def Unified_init_def dict_comp_def len_dict_def upto.simps
      Unified_oid_to_coord_def getitem_def then_c_def outcome_def)

text \<open>
  The loop of \<open>run\<close> applies \<open>run_iter\<close> once per query, each time to the state the
  iteration before it left.
\<close>

lemma run_loop_last:
  "run_loop ops nano_clock mem mix ids coords (Suc k) st =
     (case run_loop ops nano_clock mem mix ids coords k st of
        Inl e \<Rightarrow> Inl e
      | Inr st' \<Rightarrow> run_iter ops nano_clock mem mix ids coords st')"
proof (induction k arbitrary: st)
  case 0
  show ?case by (simp split: sum.splits)
next
  case (Suc k)
  show ?case
  proof (cases "run_iter ops nano_clock mem mix ids coords st")
    case (Inl e)
    then show ?thesis by simp
  next
    case (Inr st1)
    then show ?thesis using Suc.IH [of st1] by simp
  qed
qed

text \<open>
  The branch taken by an iteration can be observed. On the \<open>probe\<close> store with
  \<open>ids = [0]\<close> and no coordinates, a \<open>W2What\<close> query fails in \<open>rng.choice\<close>, a
  \<open>What2W\<close> query returns and an \<open>Integrated\<close> query fails in \<open>full_lookup\<close>.
\<close>

lemma select_query_cases:
  assumes "map_of mix ''w2what'' = Some w" and "map_of mix ''what2w'' = Some h"
  shows "select_query mix r =
           (if r < w then Inr W2What else if r < w + h then Inr What2W else Inr Integrated)"
  using assms by (simp add: select_query_def getitem_def outcome_def)

lemma probe_methods:
  "outcome (oid_to_coord probe 0) = Inr (0, 0)"
  "outcome (full_lookup probe 0) = Inl KeyError"
  by (simp_all add: probe_def Split_oid_to_coord_def Split_full_lookup_def getitem_def
      then_c_def outcome_def)

lemma run_iter_observed:
  fixes w h r :: "'f::{linorder, plus}"
  assumes "map_of mix ''w2what'' = Some w" and "map_of mix ''what2w'' = Some h"
    and "random_op ops g = (r, g1)" and "randbelow_op ops g1 1 = (0, g2)"
  shows "(run_iter ops nano_clock probe mix [0] [] (acc, g, clk) = Inl IndexError \<longleftrightarrow> r < w)
       \<and> ((\<exists>st. run_iter ops nano_clock probe mix [0] [] (acc, g, clk) = Inr st)
            \<longleftrightarrow> w \<le> r \<and> r < w + h)
       \<and> (run_iter ops nano_clock probe mix [0] [] (acc, g, clk) = Inl KeyError
            \<longleftrightarrow> \<not> r < w \<and> \<not> (w \<le> r \<and> r < w + h))"
proof -
  note sel = select_query_cases [OF assms(1,2), of r]
  have "randbelow_op ops g1 (Suc 0) = (0, g2)" using assms(4) by simp
  then have c: "choice ops g1 [0::int] = Inr (0, g2)" by (simp add: choice_def)
  have e: "choice ops g1 ([] :: coord list) = Inl IndexError" by (simp add: choice_def)
  show ?thesis
    by (auto simp: run_iter_def assms(3) sel c e timed_def probe_methods split: prod.splits)
qed

section \<open>Concrete runs\<close>

lemma gen_ds_sample:
  "gen_ds replay_ops 2 1 (seed_op replay_ops 0) = Some (Inr (sample_ds, [0, 0, 0, 0, 1, 0]))"
  by (simp add: gen_ds_def replay_ops_def sample_ds_def draw_unused.simps randint_def upto.simps)

lemma sample_ds_ids: "fst ` set sample_ds = {0, 1}"
  by (simp add: sample_ds_def)

lemma sample_ds_dense: "map fst sample_ds = [0..int (length sample_ds) - 1]"
  by (simp add: sample_ds_def upto.simps)

lemma sample_ds_coords: "(fst \<circ> snd) ` set sample_ds = {(0, 0), (1, 0)}"
  by (simp add: sample_ds_def)

lemma sample_ds_distinct: "distinct (map (fst \<circ> snd) sample_ds)"
  by (simp add: sample_ds_def)

lemma sample_ds_ids_list: "map fst sample_ds = [0..2 - 1]"
  by (simp add: sample_ds_def upto.simps)

lemma sample_mix_keys:
  "map_of sample_mix ''w2what'' = Some 0.4" "map_of sample_mix ''what2w'' = Some 0.4"
  by (simp_all add: sample_mix_def)

text \<open>A whole trial of three queries on the Split store, every call taking one tick.\<close>

lemma one_sample:
  "one replay_ops tick 0 2 3 sample_mix 1 ''Split'' 0 = Some (Inr ((0, ''Split'', 1 / 1000), 6))"
  by code_simp

lemma funpow_period:
  assumes "(f ^^ p) s = s"
  shows "(f ^^ (i + p * j)) s = (f ^^ i) s"
proof -
  have "((f ^^ p) ^^ j) s = s" using assms by (induction j) simp_all
  then have "(f ^^ (p * j)) s = s" by (simp add: funpow_mult)
  then show ?thesis by (simp add: funpow_add)
qed

lemma sweep_period: "(pair_next replay_ops 1 ^^ 5) sweep_state = sweep_state"
  by (simp add: eval_nat_numeral pair_next_def pair_draw_def replay_ops_def sweep_state_def)

lemma sweep_pairs:
  "pair_at replay_ops 1 sweep_state 0 = (0, 0)"
  "pair_at replay_ops 1 sweep_state 2 = (1, 0)"
  "pair_at replay_ops 1 sweep_state 3 = (0, 1)"
  "pair_at replay_ops 1 sweep_state 4 = (1, 1)"
  by (simp_all add: eval_nat_numeral pair_at_def pair_next_def pair_draw_def replay_ops_def
      sweep_state_def)

lemma sweep_pair_at: "pair_at replay_ops 1 sweep_state (i + 5 * j) = pair_at replay_ops 1 sweep_state i"
  by (simp add: pair_at_def funpow_period [OF sweep_period])

lemma sweep_fair: "fair_draws replay_ops 1 sweep_state"
  unfolding fair_draws_def
proof (intro allI impI)
  fix x y :: int and j :: nat
  assume "0 \<le> x \<and> x \<le> 1 \<and> 0 \<le> y \<and> y \<le> 1"
  then have "(x, y) = (0, 0) \<or> (x, y) = (1, 0) \<or> (x, y) = (0, 1) \<or> (x, y) = (1, 1)" by auto
  then obtain i where "pair_at replay_ops 1 sweep_state i = (x, y)"
    using sweep_pairs by metis
  then have "pair_at replay_ops 1 sweep_state (i + 5 * j) = (x, y)" by (simp only: sweep_pair_at)
  moreover have "j \<le> i + 5 * j" by simp
  ultimately show "\<exists>k\<ge>j. pair_at replay_ops 1 sweep_state k = (x, y)" by blast
qed

lemma gen_ds_sweep:
  "gen_ds replay_ops 2 1 sweep_state = Some (Inr (sample_ds, [0, 1, 1, 1, 0, 0, 0, 0, 1, 0]))"
  by (simp add: gen_ds_def replay_ops_def sample_ds_def sweep_state_def draw_unused.simps
      randint_def upto.simps)

text \<open>A generator that draws the same coordinate for ever never leaves the inner loop.\<close>

lemma draw_unused_stuck: "draw_unused replay_ops 1 {(0, 0)} [] = None"
proof (rule ccontr)
  assume "draw_unused replay_ops 1 {(0, 0)} [] \<noteq> None"
  then obtain y where y: "draw_unused replay_ops 1 {(0, 0)} [] = Some y" by blast
  have "\<not> (replay_ops = replay_ops \<and> (1::int) = 1 \<and> {(0::int, 0::int)} = {(0, 0)}
           \<and> ([] :: nat list) = [])"
  proof (rule draw_unused.raw_induct
        [where P = "\<lambda>ops grid used g y.
                      \<not> (ops = replay_ops \<and> grid = 1 \<and> used = {(0, 0)} \<and> g = [])",
          OF _ y])
    fix f :: "(nat list, real) random_ops \<Rightarrow> int \<Rightarrow> coord set \<Rightarrow> nat list
                \<Rightarrow> (error + coord \<times> nat list) option"
      and ops grid used g y
    assume IH: "\<And>ops grid used g y. f ops grid used g = Some y
                  \<Longrightarrow> \<not> (ops = replay_ops \<and> grid = 1 \<and> used = {(0, 0)} \<and> g = [])"
      and step: "(case randint ops g 0 grid of
          Inl e \<Rightarrow> Some (Inl e)
        | Inr (x, g1) \<Rightarrow>
            (case randint ops g1 0 grid of
               Inl e \<Rightarrow> Some (Inl e)
             | Inr (y, g2) \<Rightarrow>
                 if (x, y) \<notin> used then Some (Inr ((x, y), g2))
                 else f ops grid used g2)) = Some y"
    show "\<not> (ops = replay_ops \<and> grid = 1 \<and> used = {(0, 0)} \<and> g = [])"
    proof
      assume a: "ops = replay_ops \<and> grid = 1 \<and> used = {(0, 0)} \<and> g = []"
      have "randint replay_ops [] 0 1 = Inr (0, [])"
        by (simp add: randint_def replay_ops_def)
      then have "f replay_ops 1 {(0, 0)} [] = Some y" using step a by simp
      from IH [OF this] show False by simp
    qed
  qed
  then show False by simp
qed

lemma gen_ds_stuck: "gen_ds replay_ops 2 1 [] = None"
proof -
  have "draw_unused replay_ops 1 {} [] = Some (Inr ((0, 0), []))"
    by (subst draw_unused.simps) (simp add: randint_def replay_ops_def)
  then show ?thesis by (simp add: gen_ds_def upto.simps draw_unused_stuck)
qed

lemma replay_index_agree:
  assumes "g = rotate h cycle6"
  shows "fst (randint_op replay_ops g a b) = fst (randint_op index_ops h a b)
       \<and> snd (randint_op replay_ops g a b) = rotate (snd (randint_op index_ops h a b)) cycle6"
proof -
  have ne: "g \<noteq> []" using assms by (simp add: cycle6_def)
  then obtain x xs where g: "g = x # xs" by (cases g) auto
  have "cycle6 \<noteq> []" and "length cycle6 = 6" by (simp_all add: cycle6_def)
  then have "hd g = cycle6 ! (h mod 6)" by (simp add: assms hd_rotate_conv_nth)
  then have x: "x = cycle6 ! (h mod 6)" by (simp add: g)
  have "xs @ [x] = rotate1 g" by (simp add: g)
  also have "\<dots> = rotate (Suc h) cycle6" by (simp add: assms)
  finally show ?thesis by (simp add: replay_ops_def index_ops_def g x)
qed

lemma replay_index_seed: "seed_op replay_ops 0 = rotate (seed_op index_ops 0) cycle6"
  by (simp add: replay_ops_def index_ops_def cycle6_def)

lemma replay_random:
  "random_op replay_ops [3, 1] = (0.3, [1, 3])"
  "random_op replay_ops [4, 1] = (0.4, [1, 4])"
  "random_op replay_ops [8, 1] = (0.8, [1, 8])"
  by (simp_all add: replay_ops_def)

section \<open>Specification properties\<close>

text \<open>
  C3 (uniqueness invariant). For every \<open>n \<ge> 0\<close> and \<open>grid \<ge> 0\<close> with
  \<open>n \<le> (grid + 1)\<^sup>2\<close>, and a generator that draws fairly from its state \<open>rng\<close>,
  \<open>gen_ds(n, grid, rng)\<close> returns, and the row list it returns has \<open>n\<close> rows whose
  coordinates are pairwise distinct.
\<close>

theorem gen_ds_locations_unique:
  assumes "0 \<le> n" and "0 \<le> grid" and "n \<le> (grid + 1)\<^sup>2" and "fair_draws ops grid rng"
  shows "\<exists>rows rng'. gen_ds ops n grid rng = Some (Inr (rows, rng'))
           \<and> length rows = nat n \<and> distinct (map (fst \<circ> snd) rows)"
proof -
  have "card ({} :: coord set) + length [0..n - 1] \<le> nat ((grid + 1)\<^sup>2)"
    using assms(1,3) by simp
  from gen_rows_terminates [OF assms(2,4) _ this, of "[]" 0]
  obtain rows rng' where r: "gen_ds ops n grid rng = Some (Inr (rows, rng'))"
    by (auto simp: gen_ds_def)
  have "length rows = nat n" using gen_ds_length [OF r] assms(1) by simp
  moreover have "distinct (map (fst \<circ> snd) rows)" by (rule gen_ds_rows(1) [OF r])
  ultimately show ?thesis using r by blast
qed

theorem gen_ds_locations_unique_witness:
  "(0::int) \<le> 2 \<and> (0::int) \<le> 1 \<and> (2::int) \<le> (1 + 1)\<^sup>2 \<and> fair_draws replay_ops 1 sweep_state
   \<and> (\<exists>rows rng'. gen_ds replay_ops 2 1 sweep_state = Some (Inr (rows, rng'))
         \<and> length rows = nat 2 \<and> distinct (map (fst \<circ> snd) rows))
   \<and> gen_ds replay_ops 2 1 sweep_state = Some (Inr (sample_ds, [0, 1, 1, 1, 0, 0, 0, 0, 1, 0]))"
  using gen_ds_locations_unique [of 2 1 replay_ops sweep_state] sweep_fair gen_ds_sweep
  by simp

text \<open>
  C1 (round-trip invariant). For the rows \<open>ds\<close> returned by \<open>gen_ds(n, grid, rng)\<close>
  and every id in \<open>[0, n)\<close>, looking the id's coordinate up and then looking that
  coordinate's id up gives the id back, in the Unified store and in the Split store built
  from \<open>ds\<close>.
\<close>

theorem round_trip:
  assumes "gen_ds ops n grid rng = Some (Inr (ds, rng'))" and "0 \<le> oid" and "oid < n"
  shows "outcome (then_c (Unified_oid_to_coord (Unified_init ds) oid)
                         (Unified_coord_to_oid (Unified_init ds))) = Inr oid
       \<and> outcome (then_c (Split_oid_to_coord (Split_init ds) oid)
                         (Split_coord_to_oid (Split_init ds))) = Inr oid"
proof -
  obtain c f where m: "(oid, c, f) \<in> set ds" using gen_ds_mem [OF assms] by blast
  have d1: "distinct (map fst ds)" using gen_ds_rows(2) [OF assms(1)] by simp
  have d2: "distinct (map (fst \<circ> snd) ds)" by (rule gen_ds_rows(1) [OF assms(1)])
  show ?thesis
    by (simp add: Unified_methods(1,2) [OF d1 d2 m] Split_methods(1,2) [OF d1 d2 m]
        then_c_def outcome_def)
qed

theorem round_trip_witness:
  "gen_ds replay_ops 2 1 (seed_op replay_ops 0) = Some (Inr (sample_ds, [0, 0, 0, 0, 1, 0]))
   \<and> (0::int) \<le> 1 \<and> (1::int) < 2
   \<and> outcome (then_c (Unified_oid_to_coord (Unified_init sample_ds) 1)
                       (Unified_coord_to_oid (Unified_init sample_ds))) = Inr 1
   \<and> outcome (then_c (Split_oid_to_coord (Split_init sample_ds) 1)
                       (Split_coord_to_oid (Split_init sample_ds))) = Inr 1"
  using round_trip [OF gen_ds_sample, of 1] gen_ds_sample by simp

text \<open>
  C2 (cross-layout equivalence). For the rows \<open>ds\<close> returned by \<open>gen_ds\<close> and every
  id in \<open>[0, n)\<close>, \<open>Unified(ds).full_lookup(id)\<close> and \<open>Split(ds).full_lookup(id)\<close>
  both return the pair (coordinate, label) of the row with that id.
\<close>

theorem cross_layout_equivalence:
  assumes "gen_ds ops n grid rng = Some (Inr (ds, rng'))" and "0 \<le> oid" and "oid < n"
  shows "\<exists>c f. (oid, c, f) \<in> set ds
           \<and> outcome (Unified_full_lookup (Unified_init ds) oid) = Inr (c, f)
           \<and> outcome (Split_full_lookup (Split_init ds) oid) = Inr (c, f)"
proof -
  obtain c f where m: "(oid, c, f) \<in> set ds" using gen_ds_mem [OF assms] by blast
  have d1: "distinct (map fst ds)" using gen_ds_rows(2) [OF assms(1)] by simp
  have d2: "distinct (map (fst \<circ> snd) ds)" by (rule gen_ds_rows(1) [OF assms(1)])
  have "outcome (Unified_full_lookup (Unified_init ds) oid) = Inr (c, f)"
    by (simp add: Unified_methods(3) [OF d1 d2 m] outcome_def)
  moreover have "outcome (Split_full_lookup (Split_init ds) oid) = Inr (c, f)"
    by (simp add: Split_methods(3) [OF d1 d2 m] outcome_def)
  ultimately show ?thesis using m by blast
qed

theorem cross_layout_equivalence_witness:
  "gen_ds replay_ops 2 1 (seed_op replay_ops 0) = Some (Inr (sample_ds, [0, 0, 0, 0, 1, 0]))
   \<and> (0::int) \<le> 1 \<and> (1::int) < 2
   \<and> (\<exists>c f. (1, c, f) \<in> set sample_ds
           \<and> outcome (Unified_full_lookup (Unified_init sample_ds) 1) = Inr (c, f)
           \<and> outcome (Split_full_lookup (Split_init sample_ds) 1) = Inr (c, f))"
  using cross_layout_equivalence [OF gen_ds_sample, of 1] gen_ds_sample by simp

text \<open>
  C4 (extra cost of the Split store). For the two stores built from the same rows and
  every id that occurs in them, \<open>Unified.full_lookup\<close> performs exactly one dictionary
  read and \<open>Split.full_lookup\<close> strictly more, at least two; the exact number is four
  (\<open>where\<close>, \<open>what\<close>, \<open>idx\<close>, and \<open>what\<close> again).
\<close>

theorem split_extra_cost:
  assumes "oid \<in> fst ` set ds"
  shows "accesses (Unified_full_lookup (Unified_init ds) oid) = 1
       \<and> accesses (Split_full_lookup (Split_init ds) oid) = 4
       \<and> accesses (Unified_full_lookup (Unified_init ds) oid)
           < accesses (Split_full_lookup (Split_init ds) oid)
       \<and> 2 \<le> accesses (Split_full_lookup (Split_init ds) oid)"
proof -
  obtain c f where "Split_full_lookup (Split_init ds) oid = (Inr (c, f), 4)"
    using Split_full_lookup_reads [OF assms] by blast
  then have s: "accesses (Split_full_lookup (Split_init ds) oid) = 4"
    by (simp add: accesses_def)
  have u: "accesses (Unified_full_lookup (Unified_init ds) oid) = 1"
    by (rule Unified_full_lookup_reads)
  show ?thesis by (simp add: s u)
qed

theorem split_extra_cost_witness:
  "(1::int) \<in> fst ` set sample_ds
   \<and> accesses (Unified_full_lookup (Unified_init sample_ds) 1) = 1
   \<and> accesses (Split_full_lookup (Split_init sample_ds) 1) = 4"
  using split_extra_cost [of 1 sample_ds] by (simp add: sample_ds_ids)

text \<open>
  C5 (query classification order). An iteration of the loop of \<open>run\<close>, started in any
  state \<open>(acc, rng, clock)\<close>, draws \<open>r\<close> with \<open>rng.random()\<close>. For a \<open>mix\<close> that has
  the keys \<open>w2what\<close> and \<open>what2w\<close>: when \<open>r < mix["w2what"]\<close> the iteration chooses
  from \<open>coords\<close> and times \<open>mem.coord_to_oid\<close>; when
  \<open>mix["w2what"] \<le> r < mix["w2what"] + mix["what2w"]\<close> it chooses from \<open>ids\<close> and times
  \<open>mem.oid_to_coord\<close>; in every other case it chooses from \<open>ids\<close> and times
  \<open>mem.full_lookup\<close>. The three conditions exclude one another, and the kind selected
  is \<open>W2What\<close>, \<open>What2W\<close> or \<open>Integrated\<close> exactly under the first, the second and
  the third. \<open>run_loop\<close> applies \<open>run_iter\<close> to the state left by the iteration before
  (\<open>run_loop_last\<close>), so this holds in every iteration.
\<close>

theorem query_classification:
  fixes w h r :: "'f::{linorder, plus}"
  assumes "map_of mix ''w2what'' = Some w" and "map_of mix ''what2w'' = Some h"
    and "random_op ops g = (r, g1)"
  shows "(r < w \<longrightarrow>
            run_iter ops nano_clock mem mix ids coords (acc, g, clk) =
              (case choice ops g1 coords of
                 Inl e \<Rightarrow> Inl e
               | Inr (c, g2) \<Rightarrow>
                   (case timed nano_clock clk acc (coord_to_oid mem c) of
                      Inl e \<Rightarrow> Inl e
                    | Inr (acc', clk') \<Rightarrow> Inr (acc', g2, clk'))))
       \<and> (w \<le> r \<and> r < w + h \<longrightarrow>
            run_iter ops nano_clock mem mix ids coords (acc, g, clk) =
              (case choice ops g1 ids of
                 Inl e \<Rightarrow> Inl e
               | Inr (oid, g2) \<Rightarrow>
                   (case timed nano_clock clk acc (oid_to_coord mem oid) of
                      Inl e \<Rightarrow> Inl e
                    | Inr (acc', clk') \<Rightarrow> Inr (acc', g2, clk'))))
       \<and> (\<not> r < w \<and> \<not> (w \<le> r \<and> r < w + h) \<longrightarrow>
            run_iter ops nano_clock mem mix ids coords (acc, g, clk) =
              (case choice ops g1 ids of
                 Inl e \<Rightarrow> Inl e
               | Inr (oid, g2) \<Rightarrow>
                   (case timed nano_clock clk acc (full_lookup mem oid) of
                      Inl e \<Rightarrow> Inl e
                    | Inr (acc', clk') \<Rightarrow> Inr (acc', g2, clk'))))
       \<and> (select_query mix r = Inr W2What \<longleftrightarrow> r < w)
       \<and> (select_query mix r = Inr What2W \<longleftrightarrow> w \<le> r \<and> r < w + h)
       \<and> (select_query mix r = Inr Integrated \<longleftrightarrow> \<not> r < w \<and> \<not> (w \<le> r \<and> r < w + h))"
proof -
  note sel = select_query_cases [OF assms(1,2), of r]
  have a: "r < w \<Longrightarrow> select_query mix r = Inr W2What" by (simp add: sel)
  have b: "w \<le> r \<and> r < w + h \<Longrightarrow> select_query mix r = Inr What2W" by (auto simp: sel)
  have c: "\<not> r < w \<and> \<not> (w \<le> r \<and> r < w + h) \<Longrightarrow> select_query mix r = Inr Integrated"
    by (auto simp: sel)
  have iffs: "(select_query mix r = Inr W2What \<longleftrightarrow> r < w)
       \<and> (select_query mix r = Inr What2W \<longleftrightarrow> w \<le> r \<and> r < w + h)
       \<and> (select_query mix r = Inr Integrated \<longleftrightarrow> \<not> r < w \<and> \<not> (w \<le> r \<and> r < w + h))"
    by (auto simp: sel)
  show ?thesis
    using iffs by (simp add: run_iter_def assms(3) a b c)
qed

theorem query_classification_witness:
  "map_of sample_mix ''w2what'' = Some 0.4 \<and> map_of sample_mix ''what2w'' = Some 0.4
   \<and> random_op replay_ops [3, 1] = (0.3, [1, 3]) \<and> (0.3::real) < 0.4
   \<and> run_iter replay_ops tick (SplitMem (Split_init sample_ds)) sample_mix [0, 1] [(0, 0), (1, 0)]
         (0, [3, 1], 0)
       = (case choice replay_ops [1, 3] [(0, 0), (1, 0)] of
            Inl e \<Rightarrow> Inl e
          | Inr (c, g2) \<Rightarrow>
              (case timed tick 0 0 (coord_to_oid (SplitMem (Split_init sample_ds)) c) of
                 Inl e \<Rightarrow> Inl e
               | Inr (acc', clk') \<Rightarrow> Inr (acc', g2, clk')))
   \<and> random_op replay_ops [4, 1] = (0.4, [1, 4]) \<and> (0.4::real) \<le> 0.4 \<and> (0.4::real) < 0.4 + 0.4
   \<and> run_iter replay_ops tick (SplitMem (Split_init sample_ds)) sample_mix [0, 1] [(0, 0), (1, 0)]
         (0, [4, 1], 0)
       = (case choice replay_ops [1, 4] [0, 1] of
            Inl e \<Rightarrow> Inl e
          | Inr (oid, g2) \<Rightarrow>
              (case timed tick 0 0 (oid_to_coord (SplitMem (Split_init sample_ds)) oid) of
                 Inl e \<Rightarrow> Inl e
               | Inr (acc', clk') \<Rightarrow> Inr (acc', g2, clk')))
   \<and> random_op replay_ops [8, 1] = (0.8, [1, 8]) \<and> \<not> (0.8::real) < 0.4 + 0.4
   \<and> run_iter replay_ops tick (SplitMem (Split_init sample_ds)) sample_mix [0, 1] [(0, 0), (1, 0)]
         (0, [8, 1], 0)
       = (case choice replay_ops [1, 8] [0, 1] of
            Inl e \<Rightarrow> Inl e
          | Inr (oid, g2) \<Rightarrow>
              (case timed tick 0 0 (full_lookup (SplitMem (Split_init sample_ds)) oid) of
                 Inl e \<Rightarrow> Inl e
               | Inr (acc', clk') \<Rightarrow> Inr (acc', g2, clk')))
   \<and> select_query sample_mix 0.3 = Inr W2What
   \<and> select_query sample_mix 0.4 = Inr What2W
   \<and> select_query sample_mix 0.8 = Inr Integrated"
  using query_classification [OF sample_mix_keys replay_random(1),
      of tick "SplitMem (Split_init sample_ds)" "[0, 1]" "[(0, 0), (1, 0)]" 0 0]
    query_classification [OF sample_mix_keys replay_random(2),
      of tick "SplitMem (Split_init sample_ds)" "[0, 1]" "[(0, 0), (1, 0)]" 0 0]
    query_classification [OF sample_mix_keys replay_random(3),
      of tick "SplitMem (Split_init sample_ds)" "[0, 1]" "[(0, 0), (1, 0)]" 0 0]
    sample_mix_keys replay_random
  by simp

text \<open>
  C6 (NotFound behaviour). For the two stores built from rows whose ids are \<open>0, \<dots>, n - 1\<close>
  (\<open>n\<close> the number of rows), \<open>oid_to_coord\<close> of an id outside \<open>[0, n)\<close> raises
  \<open>KeyError\<close>, and \<open>coord_to_oid\<close> of a coordinate that no row uses raises
  \<open>KeyError\<close>.
\<close>

theorem not_found:
  assumes "map fst ds = [0..int (length ds) - 1]"
  shows "(oid < 0 \<or> int (length ds) \<le> oid \<longrightarrow>
            outcome (Unified_oid_to_coord (Unified_init ds) oid) = Inl KeyError
          \<and> outcome (Split_oid_to_coord (Split_init ds) oid) = Inl KeyError)
       \<and> (c \<notin> (fst \<circ> snd) ` set ds \<longrightarrow>
            outcome (Unified_coord_to_oid (Unified_init ds) c) = Inl KeyError
          \<and> outcome (Split_coord_to_oid (Split_init ds) c) = Inl KeyError)"
proof -
  have ids: "fst ` set ds = {0..int (length ds) - 1}"
    using arg_cong [OF assms, of set] by simp
  have "oid \<notin> fst ` set ds" if "oid < 0 \<or> int (length ds) \<le> oid"
    using that by (auto simp: ids)
  then show ?thesis
    by (simp add: Unified_oid_to_coord_def Split_oid_to_coord_def Unified_coord_to_oid_def
        Split_coord_to_oid_def outcome_def then_c_def getitem_None
        id_map_None_iff [THEN iffD2] where_None_iff [THEN iffD2]
        coord_map_None_iff [THEN iffD2] idx_None_iff [THEN iffD2])
qed

theorem not_found_witness:
  "map fst sample_ds = [0..int (length sample_ds) - 1]
   \<and> ((2::int) < 0 \<or> int (length sample_ds) \<le> 2)
   \<and> ((5, 5) \<notin> (fst \<circ> snd) ` set sample_ds)
   \<and> outcome (Unified_oid_to_coord (Unified_init sample_ds) 2) = Inl KeyError
   \<and> outcome (Split_oid_to_coord (Split_init sample_ds) 2) = Inl KeyError
   \<and> outcome (Unified_coord_to_oid (Unified_init sample_ds) (5, 5)) = Inl KeyError
   \<and> outcome (Split_coord_to_oid (Split_init sample_ds) (5, 5)) = Inl KeyError"
  using not_found [OF sample_ds_dense, of 2 "(5, 5)"] sample_ds_dense
  by (simp add: sample_ds_coords) (simp add: sample_ds_def)

text \<open>
  C7 (determinism of generation). Two calls \<open>gen_ds(n, grid, rng=random.Random(seed))\<close>
  with the same seed, the same \<open>n\<close> and the same \<open>grid\<close>, each with a generator of its
  own. If the two generators, started from that seed, draw the same numbers with
  \<open>randint\<close> (whatever else they are or do), the calls have the same outcome: the same
  rows in the same order, or the same exception, or neither returns. So the rows are
  determined by \<open>n\<close>, \<open>grid\<close> and the numbers the seeded generator draws, and by
  nothing else.
\<close>

theorem gen_ds_deterministic:
  fixes ops1 :: "('g, 'f) random_ops" and ops2 :: "('h, 'e) random_ops"
  assumes "\<And>g h a b. R g h \<Longrightarrow>
             fst (randint_op ops1 g a b) = fst (randint_op ops2 h a b)
             \<and> R (snd (randint_op ops1 g a b)) (snd (randint_op ops2 h a b))"
    and "R (seed_op ops1 seed) (seed_op ops2 seed)"
  shows "map_option (map_sum id fst) (gen_ds ops1 n grid (seed_op ops1 seed))
       = map_option (map_sum id fst) (gen_ds ops2 n grid (seed_op ops2 seed))"
proof -
  have "rel_option (rel_sum (=) (rel_prod (=) R))
          (gen_ds ops1 n grid (seed_op ops1 seed)) (gen_ds ops2 n grid (seed_op ops2 seed))"
    using assms by (rule gen_ds_rel)
  then show ?thesis by (rule rel_same_rows)
qed

theorem gen_ds_deterministic_witness:
  "seed_op replay_ops 0 = rotate (seed_op index_ops 0) cycle6
   \<and> map_option (map_sum id fst) (gen_ds replay_ops 2 1 (seed_op replay_ops 0))
       = map_option (map_sum id fst) (gen_ds index_ops 2 1 (seed_op index_ops 0))
   \<and> map_option (map_sum id fst) (gen_ds index_ops 2 1 (seed_op index_ops 0)) = Some (Inr sample_ds)"
  using gen_ds_deterministic [of "\<lambda>g h. g = rotate h cycle6" replay_ops index_ops 0 2 1,
      OF replay_index_agree replay_index_seed]
    replay_index_seed gen_ds_sample
  by simp

text \<open>
  C9 (the integrity check of \<open>Split.full_lookup\<close> cannot fail). For the Split store built
  from rows with pairwise distinct coordinates and ids \<open>0, \<dots>, n - 1\<close>, and every id in
  \<open>[0, n)\<close>: \<open>self.idx[self.where[id]]\<close> is the id itself, the read of \<open>self.what\<close>
  succeeds, and \<open>full_lookup(id)\<close> returns the coordinate and label of the row.
\<close>

theorem split_full_lookup_never_raises:
  assumes "distinct (map (fst \<circ> snd) ds)" and "map fst ds = [0..n - 1]"
    and "0 \<le> oid" and "oid < n"
  shows "\<exists>c f. (oid, c, f) \<in> set ds
           \<and> outcome (getitem (where_tab (Split_init ds)) oid) = Inr c
           \<and> outcome (getitem (idx (Split_init ds)) c) = Inr oid
           \<and> outcome (getitem (what (Split_init ds)) oid) = Inr f
           \<and> outcome (Split_full_lookup (Split_init ds) oid) = Inr (c, f)"
proof -
  have "oid \<in> set (map fst ds)" using assms(2,3,4) by simp
  then obtain c f where m: "(oid, c, f) \<in> set ds" by force
  have d1: "distinct (map fst ds)" using assms(2) by simp
  note d2 = assms(1)
  have "outcome (getitem (where_tab (Split_init ds)) oid) = Inr c"
    by (simp add: getitem_Some [OF where_Some [OF d1 m]] outcome_def)
  moreover have "outcome (getitem (idx (Split_init ds)) c) = Inr oid"
    by (simp add: getitem_Some [OF idx_Some [OF d2 m]] outcome_def)
  moreover have "outcome (getitem (what (Split_init ds)) oid) = Inr f"
    by (simp add: getitem_Some [OF what_Some [OF d1 m]] outcome_def)
  moreover have "outcome (Split_full_lookup (Split_init ds) oid) = Inr (c, f)"
    by (simp add: Split_methods(3) [OF d1 d2 m] outcome_def)
  ultimately show ?thesis using m by blast
qed

theorem split_full_lookup_never_raises_witness:
  "distinct (map (fst \<circ> snd) sample_ds) \<and> map fst sample_ds = [0..2 - 1]
   \<and> (0::int) \<le> 1 \<and> (1::int) < 2
   \<and> (\<exists>c f. (1, c, f) \<in> set sample_ds
         \<and> outcome (getitem (where_tab (Split_init sample_ds)) 1) = Inr c
         \<and> outcome (getitem (idx (Split_init sample_ds)) c) = Inr 1
         \<and> outcome (getitem (what (Split_init sample_ds)) 1) = Inr f
         \<and> outcome (Split_full_lookup (Split_init sample_ds) 1) = Inr (c, f))"
  using split_full_lookup_never_raises [OF sample_ds_distinct sample_ds_ids_list, of 1]
    sample_ds_distinct sample_ds_ids_list
  by simp

text \<open>
  C10 (zero queries). For a store built from rows whose ids are \<open>0, \<dots>, n - 1\<close>, every
  \<open>mix\<close> and every generator state, \<open>run(mem, 0, mix, rng)\<close> raises
  \<open>ZeroDivisionError\<close>: the query loop is empty and the mean divides by
  \<open>total_queries = 0\<close>.
\<close>

theorem run_zero_queries:
  assumes "map fst ds = [0..int (length ds) - 1]"
    and "mem = UnifiedMem (Unified_init ds) \<or> mem = SplitMem (Split_init ds)"
  shows "run ops nano_clock mem 0 mix rng clk = Inl ZeroDivisionError"
  using assms by (rule run_zero_dense)

theorem run_zero_queries_witness:
  "map fst sample_ds = [0..int (length sample_ds) - 1]
   \<and> run replay_ops tick (UnifiedMem (Unified_init sample_ds)) 0 [] (seed_op replay_ops 0) 0
       = Inl ZeroDivisionError
   \<and> run replay_ops tick (SplitMem (Split_init sample_ds)) 0 sample_mix (seed_op replay_ops 0) 0
       = Inl ZeroDivisionError"
  using run_zero_queries [OF sample_ds_dense, of "UnifiedMem (Unified_init sample_ds)" replay_ops tick "[]" "seed_op replay_ops 0" 0]
    run_zero_queries [OF sample_ds_dense, of "SplitMem (Split_init sample_ds)" replay_ops tick sample_mix "seed_op replay_ops 0" 0]
    sample_ds_dense
  by simp

end
